theory Spec2Isabelle
  imports Main "HOL-Library.Sublist"
begin

section \<open>Strings\<close>

text \<open>
  A Python \<open>str\<close> is a sequence of Unicode code points; \<open>len\<close> counts code points.
  A code point is a natural number, a string is a list of them, and \<open>str\<close> reads an
  ASCII literal.
\<close>

type_synonym pystr = "nat list"

definition str :: "string \<Rightarrow> pystr" where
  "str s = map of_char s"

text \<open>
  \<open>str.isspace\<close> on one code point, which is also the class \<open>\s\<close> of a \<open>re\<close> pattern
  over \<open>str\<close>: the code points U+0009..U+000D, U+001C..U+0020, U+0085, U+00A0,
  U+1680, U+2000..U+200A, U+2028, U+2029, U+202F, U+205F and U+3000.
\<close>

definition isspace :: "nat \<Rightarrow> bool" where
  "isspace c \<longleftrightarrow>
     (9 \<le> c \<and> c \<le> 13) \<or> (28 \<le> c \<and> c \<le> 32) \<or> c = 133 \<or> c = 160 \<or> c = 5760 \<or>
     (8192 \<le> c \<and> c \<le> 8202) \<or> c = 8232 \<or> c = 8233 \<or> c = 8239 \<or> c = 8287 \<or>
     c = 12288"

text \<open>The code points the patterns name: \<open>\n\<close>, the space, \<open>#\<close>, and \<open>[.!?]\<close>.\<close>

definition newline :: nat where
  "newline = 10"

definition space :: nat where
  "space = 32"

definition hash :: nat where
  "hash = 35"

definition is_punct :: "nat \<Rightarrow> bool" where
  "is_punct c \<longleftrightarrow> c = 46 \<or> c = 33 \<or> c = 63"

text \<open>\<open>s.strip()\<close>: leading and trailing whitespace removed.\<close>

definition strip :: "pystr \<Rightarrow> pystr" where
  "strip s = rev (dropWhile isspace (rev (dropWhile isspace s)))"

text \<open>
  \<open>s.split(sep)\<close> for a one-character separator, scanning with the piece read so far:
  the empty string gives one empty piece, and \<open>n\<close> separators give \<open>n + 1\<close> pieces.
\<close>

fun split_on :: "nat \<Rightarrow> pystr \<Rightarrow> pystr \<Rightarrow> pystr list" where
  "split_on sep cur [] = [cur]"
| "split_on sep cur (c # cs) =
     (if c = sep then cur # split_on sep [] cs else split_on sep (cur @ [c]) cs)"

text \<open>\<open>sep.join(parts)\<close>.\<close>

fun join :: "pystr \<Rightarrow> pystr list \<Rightarrow> pystr" where
  "join sep [] = []"
| "join sep [p] = p"
| "join sep (p # q # ps) = p @ sep @ join sep (q # ps)"

section \<open>The two patterns\<close>

text \<open>
  \<open>header_pattern.match(s)\<close> for \<open>^(#{1,6})\s+(.+)$\<close> with \<open>re.MULTILINE\<close>; the result is
  \<open>group(2)\<close> of the match, or \<open>None\<close>. The match starts at position 0. The greedy
  \<open>#{1,6}\<close> must be followed by whitespace, so it is the whole leading run of \<open>#\<close>, of
  length 1 to 6. \<open>header_ws rest m\<close> is the backtracking of \<open>\s+\<close> from \<open>m\<close> whitespace
  characters down to one: after them \<open>.+\<close> needs one character that is not a newline
  and runs greedily to the next newline or the end, where \<open>$\<close> holds.
\<close>

fun header_ws :: "pystr \<Rightarrow> nat \<Rightarrow> pystr option" where
  "header_ws rest 0 = None"
| "header_ws rest (Suc m) =
     (if drop (Suc m) rest \<noteq> [] \<and> hd (drop (Suc m) rest) \<noteq> newline
      then Some (takeWhile (\<lambda>c. c \<noteq> newline) (drop (Suc m) rest))
      else header_ws rest m)"

definition header_match :: "pystr \<Rightarrow> pystr option" where
  "header_match s =
     (let k = length (takeWhile (\<lambda>c. c = hash) s) in
      if 1 \<le> k \<and> k \<le> 6
      then header_ws (drop k s) (length (takeWhile isspace (drop k s)))
      else None)"

text \<open>
  One match of \<open>([.!?]+)\s+\<close> at the start of \<open>s\<close>: \<open>group(1)\<close> and the text after the
  match. The punctuation run is the maximal one (a shorter run is followed by
  punctuation, not by whitespace) and \<open>\s+\<close> takes all the whitespace after it.
\<close>

definition sentence_end :: "pystr \<Rightarrow> (pystr \<times> pystr) option" where
  "sentence_end s =
     (if takeWhile is_punct s \<noteq> [] \<and> dropWhile is_punct s \<noteq> [] \<and>
         isspace (hd (dropWhile is_punct s))
      then Some (takeWhile is_punct s, dropWhile isspace (dropWhile is_punct s))
      else None)"

lemma sentence_end_shorter:
  "sentence_end s = Some (run, rest) \<Longrightarrow> length rest < length s"
proof -
  assume h: "sentence_end s = Some (run, rest)"
  then have r: "rest = dropWhile isspace (dropWhile is_punct s)" and n: "takeWhile is_punct s \<noteq> []"
    by (auto simp: sentence_end_def split: if_splits)
  have "length (takeWhile is_punct s) + length (dropWhile is_punct s) = length s"
    by (metis length_append takeWhile_dropWhile_id)
  moreover have "length rest \<le> length (dropWhile is_punct s)"
    unfolding r by (rule length_dropWhile_le)
  moreover have "0 < length (takeWhile is_punct s)"
    using n by simp
  ultimately show ?thesis by linarith
qed

text \<open>
  \<open>re.split(r'([.!?]+)\s+', s)\<close>: the matches are searched from left to right, each from
  the end of the one before; the text before a match, then its \<open>group(1)\<close>, then the
  rest. \<open>cur\<close> is the text since the last match. The result has odd length.
\<close>

function re_split :: "pystr \<Rightarrow> pystr \<Rightarrow> pystr list" where
  "re_split cur [] = [cur]"
| "re_split cur (c # cs) =
     (case sentence_end (c # cs) of
        Some (run, rest) \<Rightarrow> cur # run # re_split [] rest
      | None \<Rightarrow> re_split (cur @ [c]) cs)"
  by pat_completeness auto
termination
  by (relation "measure (\<lambda>(cur, s). length s)") (auto dest: sentence_end_shorter)

section \<open>Segments and the parser\<close>

record segment =
  "text" :: pystr
  header :: "pystr option"
  is_header :: bool

record TextParser =
  split_by_headers :: bool
  split_by_punctuation :: bool
  min_segment_length :: int

datatype py_error = IndexError | ValueError string

text \<open>\<open>xs[-1]\<close>, which raises \<open>IndexError\<close> on the empty list.\<close>

definition py_last :: "'a list \<Rightarrow> py_error + 'a" where
  "py_last xs = (if xs = [] then Inl IndexError else Inr (last xs))"

subsection \<open>Splitting by headers\<close>

text \<open>
  The block that saves the lines collected so far as one content segment; the source
  has it twice, at a header line and after the loop.
\<close>

definition save_current :: "segment list \<Rightarrow> pystr option \<Rightarrow> pystr list \<Rightarrow> segment list" where
  "save_current segments current_header current_text =
     (if current_text \<noteq> [] then
        (if strip (join [newline] current_text) \<noteq> [] then
           segments @ [\<lparr>text = strip (join [newline] current_text),
                        header = current_header, is_header = False\<rparr>]
         else segments)
      else segments)"

text \<open>The loop over the lines, with \<open>segments\<close>, \<open>current_header\<close> and \<open>current_text\<close>.\<close>

fun header_loop ::
  "pystr list \<Rightarrow> segment list \<Rightarrow> pystr option \<Rightarrow> pystr list \<Rightarrow> segment list" where
  "header_loop [] segments current_header current_text =
     save_current segments current_header current_text"
| "header_loop (line # lines) segments current_header current_text =
     (case header_match (strip line) of
        Some group2 \<Rightarrow>
          header_loop lines
            (save_current segments current_header current_text @
               [\<lparr>text = strip group2, header = Some (strip group2), is_header = True\<rparr>])
            (Some (strip group2)) []
      | None \<Rightarrow>
          (if strip line \<noteq> []
           then header_loop lines segments current_header (current_text @ [line])
           else header_loop lines segments current_header current_text))"

definition priv_split_by_headers :: "pystr \<Rightarrow> segment list" where
  "priv_split_by_headers txt = header_loop (split_on newline [] txt) [] None []"

subsection \<open>Splitting by punctuation\<close>

text \<open>
  The inner loop over \<open>enumerate(sentences)\<close>: \<open>i\<close> is the index, \<open>hdr\<close> the header of the
  segment being split, \<open>m\<close> the minimum length. It returns the list \<open>result\<close> and the
  \<open>current_sentence\<close> left at the end.
\<close>

fun sentence_loop ::
  "int \<Rightarrow> pystr option \<Rightarrow> nat \<Rightarrow> pystr list \<Rightarrow> pystr \<Rightarrow> segment list \<Rightarrow> segment list \<times> pystr" where
  "sentence_loop m hdr i [] current_sentence result = (result, current_sentence)"
| "sentence_loop m hdr i (part # parts) current_sentence result =
     (if i mod 2 = 0
      then sentence_loop m hdr (i + 1) parts (current_sentence @ part) result
      else
        (if strip (current_sentence @ part) \<noteq> [] \<and>
            m \<le> int (length (strip (current_sentence @ part)))
         then sentence_loop m hdr (i + 1) parts []
                (result @ [\<lparr>text = strip (current_sentence @ part), header = hdr,
                             is_header = False\<rparr>])
         else sentence_loop m hdr (i + 1) parts [] result))"

text \<open>
  The text left after the last sentence. \<open>result[-1]\<close> is read twice, in the test and in
  the update; the \<open>and\<close> of the test does not read it when \<open>result\<close> is empty. The
  segment updated in place is never a header segment, so it is one this function
  created, and the caller's segments are not changed.
\<close>

definition add_remaining ::
  "int \<Rightarrow> pystr option \<Rightarrow> segment list \<Rightarrow> pystr \<Rightarrow> py_error + segment list" where
  "add_remaining m hdr result current_sentence =
     (if strip current_sentence \<noteq> [] then
        (let remaining = strip current_sentence in
         if m \<le> int (length remaining) then
           Inr (result @ [\<lparr>text = remaining, header = hdr, is_header = False\<rparr>])
         else if remaining \<noteq> [] then
           (case (if result \<noteq> [] then map_sum id (\<lambda>l. \<not> is_header l) (py_last result)
                  else Inr False) of
              Inl e \<Rightarrow> Inl e
            | Inr True \<Rightarrow>
                (case py_last result of
                   Inl e \<Rightarrow> Inl e
                 | Inr l \<Rightarrow> Inr (butlast result @ [l\<lparr>text := text l @ [space] @ remaining\<rparr>]))
            | Inr False \<Rightarrow>
                Inr (result @ [\<lparr>text = remaining, header = hdr, is_header = False\<rparr>]))
         else Inr result)
      else Inr result)"

text \<open>The body of the loop over the segments, for one segment.\<close>

definition punct_segment :: "int \<Rightarrow> segment list \<Rightarrow> segment \<Rightarrow> py_error + segment list" where
  "punct_segment m result segment =
     (if is_header segment then Inr (result @ [segment])
      else
        (case sentence_loop m (header segment) 0 (re_split [] (text segment)) [] result of
           (result', current_sentence) \<Rightarrow>
             add_remaining m (header segment) result' current_sentence))"

fun punct_loop :: "int \<Rightarrow> segment list \<Rightarrow> segment list \<Rightarrow> py_error + segment list" where
  "punct_loop m result [] = Inr result"
| "punct_loop m result (segment # segments) =
     (case punct_segment m result segment of
        Inl e \<Rightarrow> Inl e
      | Inr result' \<Rightarrow> punct_loop m result' segments)"

definition priv_split_by_punctuation :: "int \<Rightarrow> segment list \<Rightarrow> py_error + segment list" where
  "priv_split_by_punctuation m segments = punct_loop m [] segments"

subsection \<open>parse\<close>

text \<open>The segments before the punctuation stage.\<close>

definition pre_split :: "TextParser \<Rightarrow> pystr \<Rightarrow> segment list" where
  "pre_split self txt =
     (if split_by_headers self then priv_split_by_headers txt
      else [\<lparr>text = strip txt, header = None, is_header = False\<rparr>])"

text \<open>The segments before the final filter.\<close>

definition unfiltered :: "TextParser \<Rightarrow> pystr \<Rightarrow> py_error + segment list" where
  "unfiltered self txt =
     (if split_by_punctuation self
      then priv_split_by_punctuation (min_segment_length self) (pre_split self txt)
      else Inr (pre_split self txt))"

definition parse :: "TextParser \<Rightarrow> pystr \<Rightarrow> py_error + segment list" where
  "parse self txt =
     (if strip txt = [] then Inr []
      else
        (case unfiltered self txt of
           Inl e \<Rightarrow> Inl e
         | Inr segments \<Rightarrow>
             Inr (filter (\<lambda>s. min_segment_length self \<le> int (length (strip (text s))))
                    segments)))"

section \<open>The combiner\<close>

text \<open>
  \<open>combine_audio_files\<close> of \<open>main.py\<close>. Everything after the first test (the output
  directory, the temporary list file, the run of ffmpeg) is the parameter \<open>run_ffmpeg\<close>, a
  step on the state of the file system that may fail.
\<close>

definition combine_audio_files ::
  "(pystr list \<Rightarrow> pystr \<Rightarrow> bool \<Rightarrow> 'fs \<Rightarrow> py_error + 'fs) \<Rightarrow>
   pystr list \<Rightarrow> pystr \<Rightarrow> bool \<Rightarrow> 'fs \<Rightarrow> py_error + 'fs" where
  "combine_audio_files run_ffmpeg segment_files output_path normalize_audio fs =
     (if segment_files = [] then Inl (ValueError ''No audio files to combine'')
      else run_ffmpeg segment_files output_path normalize_audio fs)"

section \<open>Notions used in the statements\<close>


text \<open>A string that \<open>strip\<close> leaves as it is and that is not empty.\<close>

definition trimmed :: "pystr \<Rightarrow> bool" where
  "trimmed t \<longleftrightarrow> t \<noteq> [] \<and> \<not> isspace (hd t) \<and> \<not> isspace (last t)"

definition all_trimmed :: "segment list \<Rightarrow> bool" where
  "all_trimmed segments \<longleftrightarrow> list_all (\<lambda>s. trimmed (text s)) segments"

text \<open>Segments that are no header segments and carry no header.\<close>

definition plain :: "segment list \<Rightarrow> bool" where
  "plain segments \<longleftrightarrow> list_all (\<lambda>s. \<not> is_header s \<and> header s = None) segments"

text \<open>The candidate sentences of a \<open>re.split\<close> result: each text part with the
  punctuation part after it, trimmed. The last part, which has no punctuation part, is
  the remainder and no candidate.\<close>

fun candidates :: "pystr list \<Rightarrow> pystr list" where
  "candidates (t # p # parts) = strip (t @ p) # candidates parts"
| "candidates parts = []"




section \<open>Lemmas\<close>

subsection \<open>Trimming\<close>

text \<open>What \<open>strip\<close> removes and what it leaves.\<close>

lemma dropWhile_all_iff: "(\<forall>x\<in>set (dropWhile P s). P x) \<longleftrightarrow> (\<forall>x\<in>set s. P x)"
  by (induction s) auto

lemma strip_Nil_iff: "strip s = [] \<longleftrightarrow> (\<forall>c\<in>set s. isspace c)"
  by (simp add: strip_def dropWhile_all_iff)

lemma strip_decomp:
  "s = takeWhile isspace s @ strip s @ rev (takeWhile isspace (rev (dropWhile isspace s)))"
proof -
  let ?d = "dropWhile isspace s"
  have "rev ?d = takeWhile isspace (rev ?d) @ dropWhile isspace (rev ?d)"
    by (simp only: takeWhile_dropWhile_id)
  then have "rev (rev ?d) = rev (takeWhile isspace (rev ?d) @ dropWhile isspace (rev ?d))"
    by (rule arg_cong)
  then have "?d = strip s @ rev (takeWhile isspace (rev ?d))"
    by (simp only: rev_rev_ident rev_append strip_def)
  moreover have "s = takeWhile isspace s @ ?d"
    by (simp only: takeWhile_dropWhile_id)
  ultimately show ?thesis by simp
qed

lemma strip_keeps:
  assumes "s \<noteq> []" "\<not> isspace (hd s)" "\<not> isspace (last s)"
  shows "strip s = s"
proof -
  have a: "dropWhile isspace s = s"
    using assms by (simp add: dropWhile_eq_self_iff)
  have "rev s \<noteq> []" "\<not> isspace (hd (rev s))"
    using assms by (simp_all add: hd_rev)
  then have "dropWhile isspace (rev s) = rev s"
    by (simp add: dropWhile_eq_self_iff)
  with a show ?thesis by (simp add: strip_def)
qed

lemma last_strip: "strip s \<noteq> [] \<Longrightarrow> \<not> isspace (last (strip s))"
proof -
  assume "strip s \<noteq> []"
  then have n: "dropWhile isspace (rev (dropWhile isspace s)) \<noteq> []"
    by (simp add: strip_def)
  have "\<not> isspace (hd (dropWhile isspace (rev (dropWhile isspace s))))"
    using n by (rule hd_dropWhile)
  then show ?thesis using n by (simp add: strip_def last_rev)
qed

lemma hd_strip: "strip s \<noteq> [] \<Longrightarrow> \<not> isspace (hd (strip s))"
proof -
  assume h: "strip s \<noteq> []"
  let ?d = "dropWhile isspace s"
  have n: "?d \<noteq> []"
  proof
    assume "?d = []"
    then have "strip s = []"
      unfolding strip_def by (simp only: rev.simps dropWhile.simps)
    with h show False by simp
  qed
  have a: "\<not> isspace (hd ?d)" using n by (rule hd_dropWhile)
  have l: "\<not> isspace (last (strip s))" using h by (rule last_strip)
  have "?d = strip s @ rev (takeWhile isspace (rev ?d))"
    using strip_decomp [of s] by (metis same_append_eq takeWhile_dropWhile_id)
  then have "hd ?d = hd (strip s)" using h by (metis hd_append2)
  with a show ?thesis by simp
qed



lemma strip_strip: "strip (strip s) = strip s"
proof (cases "strip s = []")
  case True
  have "strip [] = []" by (simp add: strip_def)
  then show ?thesis unfolding True .
next
  case False
  then show ?thesis by (simp add: strip_keeps hd_strip last_strip)
qed

lemma trimmed_strip: "strip s \<noteq> [] \<Longrightarrow> trimmed (strip s)"
  by (simp add: trimmed_def hd_strip last_strip)

lemma strip_trimmed: "trimmed t \<Longrightarrow> strip t = t"
  by (simp add: trimmed_def strip_keeps)

lemma trimmed_merge: "trimmed t \<Longrightarrow> trimmed r \<Longrightarrow> trimmed (t @ [space] @ r)"
  by (simp add: trimmed_def)

subsection \<open>The parser raises nothing\<close>

text \<open>The two reads of \<open>result[-1]\<close> are guarded, so each step has a result.\<close>

lemma add_remaining_eq:
  "add_remaining m hdr result cs = Inr
     (if strip cs = [] then result
      else if m \<le> int (length (strip cs))
        then result @ [\<lparr>text = strip cs, header = hdr, is_header = False\<rparr>]
      else if result \<noteq> [] \<and> \<not> is_header (last result)
        then butlast result @ [(last result)\<lparr>text := text (last result) @ [space] @ strip cs\<rparr>]
      else result @ [\<lparr>text = strip cs, header = hdr, is_header = False\<rparr>])"
  by (simp add: add_remaining_def py_last_def Let_def)


lemma punct_segment_total: "\<exists>out. punct_segment m result segment = Inr out"
  by (simp add: punct_segment_def add_remaining_eq split: prod.split)

lemma punct_loop_total: "\<exists>out. punct_loop m result segments = Inr out"
proof (induction segments arbitrary: result)
  case Nil
  show ?case by simp
next
  case (Cons segment segments)
  obtain r where "punct_segment m result segment = Inr r"
    using punct_segment_total by blast
  then show ?case using Cons.IH [of r] by simp
qed

lemma unfiltered_total: "\<exists>out. unfiltered self txt = Inr out"
  by (simp add: unfiltered_def priv_split_by_punctuation_def punct_loop_total)

subsection \<open>Texts are trimmed and not empty\<close>

text \<open>Every segment either stage builds has a trimmed, non-empty text.\<close>

lemma isspace_newline: "isspace newline"
  by (simp add: isspace_def newline_def)

lemma header_ws_first:
  "0 < m \<Longrightarrow> drop m rest \<noteq> [] \<Longrightarrow> hd (drop m rest) \<noteq> newline \<Longrightarrow>
   header_ws rest m = Some (takeWhile (\<lambda>c. c \<noteq> newline) (drop m rest))"
  by (cases m) simp_all

lemma header_match_trimmed:
  assumes m: "header_match s = Some g" and s: "s = [] \<or> \<not> isspace (last s)"
  shows "strip g \<noteq> []"
proof -
  let ?k = "length (takeWhile (\<lambda>c. c = hash) s)"
  let ?rest = "drop ?k s"
  let ?m = "length (takeWhile isspace ?rest)"
  have k: "1 \<le> ?k \<and> ?k \<le> 6" and w: "header_ws ?rest ?m = Some g"
    using m by (auto simp: header_match_def Let_def split: if_splits)
  have m0: "0 < ?m"
  proof (rule ccontr)
    assume "\<not> 0 < ?m"
    then have "?m = 0" by simp
    then have "header_ws ?rest ?m = None" by (simp only: header_ws.simps)
    with w show False by simp
  qed
  then have rest: "?rest \<noteq> []" by auto
  then have "s \<noteq> []" by auto
  with s have "\<not> isspace (last s)" by simp
  moreover have "last ?rest = last s" using rest by simp
  ultimately have l: "\<not> isspace (last ?rest)" by simp
  have d: "drop ?m ?rest = dropWhile isspace ?rest"
    by (simp only: dropWhile_eq_drop)
  have n: "dropWhile isspace ?rest \<noteq> []"
    using l rest by (metis dropWhile_eq_Nil_conv last_in_set)
  then have h: "\<not> isspace (hd (dropWhile isspace ?rest))" by (rule hd_dropWhile)
  then have "hd (dropWhile isspace ?rest) \<noteq> newline" using isspace_newline by metis
  then have "header_ws ?rest ?m = Some (takeWhile (\<lambda>c. c \<noteq> newline) (drop ?m ?rest))"
    using m0 n d by (simp only: header_ws_first not_False_eq_True)
  with w d have g: "g = takeWhile (\<lambda>c. c \<noteq> newline) (dropWhile isspace ?rest)" by simp
  obtain x xs where x: "dropWhile isspace ?rest = x # xs"
    using n by (cases "dropWhile isspace ?rest") auto
  have "\<not> isspace x" using h x by simp
  moreover have "x \<noteq> newline" using \<open>\<not> isspace x\<close> isspace_newline by metis
  then have "x \<in> set g" unfolding g x by simp
  ultimately show ?thesis by (auto simp: strip_Nil_iff)
qed

lemma header_match_strip: "header_match (strip line) = Some g \<Longrightarrow> strip g \<noteq> []"
proof (rule header_match_trimmed)
  show "strip line = [] \<or> \<not> isspace (last (strip line))"
    using last_strip by blast
qed

lemma all_trimmed_simps:
  "all_trimmed []"
  "all_trimmed (xs @ ys) \<longleftrightarrow> all_trimmed xs \<and> all_trimmed ys"
  "all_trimmed (x # xs) \<longleftrightarrow> trimmed (text x) \<and> all_trimmed xs"
  by (simp_all add: all_trimmed_def)

lemma save_current_trimmed:
  "all_trimmed segments \<Longrightarrow> all_trimmed (save_current segments h ct)"
  by (simp add: save_current_def all_trimmed_simps trimmed_strip)

lemma header_loop_trimmed:
  "all_trimmed segments \<Longrightarrow> all_trimmed (header_loop lines segments h ct)"
proof (induction lines arbitrary: segments h ct)
  case Nil
  then show ?case by (simp add: save_current_trimmed)
next
  case (Cons line lines)
  show ?case
  proof (cases "header_match (strip line)")
    case None
    then show ?thesis using Cons by simp
  next
    case (Some g)
    then have "trimmed (strip g)"
      by (simp add: header_match_strip trimmed_strip)
    then have "all_trimmed (save_current segments h ct @
        [\<lparr>text = strip g, header = Some (strip g), is_header = True\<rparr>])"
      using Cons.prems by (simp add: all_trimmed_simps save_current_trimmed)
    then show ?thesis using Some Cons.IH by simp
  qed
qed

lemma pre_split_trimmed: "strip txt \<noteq> [] \<Longrightarrow> all_trimmed (pre_split self txt)"
  by (simp add: pre_split_def priv_split_by_headers_def header_loop_trimmed
      all_trimmed_simps trimmed_strip)

lemma sentence_loop_trimmed:
  "all_trimmed result \<Longrightarrow> all_trimmed (fst (sentence_loop m hdr i parts cur result))"
  by (induction parts arbitrary: i cur result) (simp_all add: all_trimmed_simps trimmed_strip)

lemma all_trimmed_butlast: "all_trimmed xs \<Longrightarrow> all_trimmed (butlast xs)"
  by (auto simp: all_trimmed_def list_all_iff dest: in_set_butlastD)

lemma all_trimmed_last: "all_trimmed xs \<Longrightarrow> xs \<noteq> [] \<Longrightarrow> trimmed (text (last xs))"
  by (simp add: all_trimmed_def list_all_iff)

lemma add_remaining_trimmed:
  assumes "all_trimmed result" "add_remaining m hdr result cs = Inr out"
  shows "all_trimmed out"
proof -
  have "trimmed (text (last result) @ [space] @ strip cs)"
    if "result \<noteq> []" "strip cs \<noteq> []"
    using that assms(1) by (intro trimmed_merge all_trimmed_last trimmed_strip)
  then show ?thesis
    using assms by (auto simp: add_remaining_eq all_trimmed_simps trimmed_strip
        all_trimmed_butlast split: if_splits)
qed

lemma punct_segment_trimmed:
  assumes "all_trimmed result" "trimmed (text segment)" "punct_segment m result segment = Inr out"
  shows "all_trimmed out"
proof (cases "is_header segment")
  case True
  then show ?thesis using assms by (auto simp: punct_segment_def all_trimmed_simps)
next
  case False
  obtain r cs where e: "sentence_loop m (header segment) 0 (re_split [] (text segment)) [] result = (r, cs)"
    by (cases "sentence_loop m (header segment) 0 (re_split [] (text segment)) [] result")
  then have "all_trimmed r"
    using sentence_loop_trimmed [OF assms(1), of m "header segment" 0 "re_split [] (text segment)" "[]"]
    by simp
  moreover have "add_remaining m (header segment) r cs = Inr out"
    using assms(3) False e by (simp add: punct_segment_def)
  ultimately show ?thesis by (rule add_remaining_trimmed)
qed

lemma punct_loop_trimmed:
  "all_trimmed result \<Longrightarrow> all_trimmed segments \<Longrightarrow> punct_loop m result segments = Inr out \<Longrightarrow>
   all_trimmed out"
proof (induction segments arbitrary: result)
  case Nil
  then show ?case by simp
next
  case (Cons segment segments)
  obtain r where r: "punct_segment m result segment = Inr r"
    using punct_segment_total by blast
  then have "all_trimmed r"
    using Cons.prems by (auto simp: all_trimmed_simps intro: punct_segment_trimmed)
  then show ?case using Cons r by (simp add: all_trimmed_simps)
qed

lemma unfiltered_trimmed:
  "strip txt \<noteq> [] \<Longrightarrow> unfiltered self txt = Inr out \<Longrightarrow> all_trimmed out"
  using punct_loop_trimmed [of "[]" "pre_split self txt" "min_segment_length self" out]
  by (auto simp: unfiltered_def priv_split_by_punctuation_def pre_split_trimmed all_trimmed_simps
      split: if_splits)

subsection \<open>Input without header lines\<close>

lemma plain_simps:
  "plain []"
  "plain (xs @ ys) \<longleftrightarrow> plain xs \<and> plain ys"
  "plain (x # xs) \<longleftrightarrow> (\<not> is_header x \<and> header x = None) \<and> plain xs"
  by (simp_all add: plain_def)

lemma save_current_plain: "plain segments \<Longrightarrow> plain (save_current segments None ct)"
  by (simp add: save_current_def plain_simps)

lemma header_loop_plain:
  "list_all (\<lambda>line. header_match (strip line) = None) lines \<Longrightarrow> plain segments \<Longrightarrow>
   plain (header_loop lines segments None ct)"
  by (induction lines arbitrary: ct) (simp_all add: save_current_plain)

lemma sentence_loop_plain:
  "plain result \<Longrightarrow> plain (fst (sentence_loop m None i parts cur result))"
  by (induction parts arbitrary: i cur result) (simp_all add: plain_simps)

lemma plain_butlast: "plain xs \<Longrightarrow> plain (butlast xs)"
  by (auto simp: plain_def list_all_iff dest: in_set_butlastD)

lemma plain_last: "plain xs \<Longrightarrow> xs \<noteq> [] \<Longrightarrow> \<not> is_header (last xs) \<and> header (last xs) = None"
  by (simp add: plain_def list_all_iff)

lemma add_remaining_plain:
  "plain result \<Longrightarrow> add_remaining m None result cs = Inr out \<Longrightarrow> plain out"
  by (auto simp: add_remaining_eq plain_simps plain_butlast plain_last split: if_splits)

lemma punct_segment_plain:
  assumes "plain result" "\<not> is_header segment" "header segment = None"
    "punct_segment m result segment = Inr out"
  shows "plain out"
proof -
  obtain r cs where e: "sentence_loop m None 0 (re_split [] (text segment)) [] result = (r, cs)"
    by (cases "sentence_loop m None 0 (re_split [] (text segment)) [] result")
  then have "plain r"
    using sentence_loop_plain [OF assms(1), of m 0 "re_split [] (text segment)" "[]"] by simp
  moreover have "add_remaining m None r cs = Inr out"
    using assms e by (simp add: punct_segment_def)
  ultimately show ?thesis by (rule add_remaining_plain)
qed

lemma punct_loop_plain:
  "plain result \<Longrightarrow> plain segments \<Longrightarrow> punct_loop m result segments = Inr out \<Longrightarrow> plain out"
proof (induction segments arbitrary: result)
  case Nil
  then show ?case by simp
next
  case (Cons segment segments)
  obtain r where r: "punct_segment m result segment = Inr r"
    using punct_segment_total by blast
  then have "plain r"
    using Cons.prems by (auto simp: plain_simps intro: punct_segment_plain)
  then show ?case using Cons r by (simp add: plain_simps)
qed

subsection \<open>One more segment for the punctuation stage\<close>

lemma punct_loop_append:
  "punct_loop m result (xs @ ys) =
     (case punct_loop m result xs of Inl e \<Rightarrow> Inl e | Inr r \<Rightarrow> punct_loop m r ys)"
proof (induction xs arbitrary: result)
  case Nil
  show ?case by simp
next
  case (Cons x xs)
  obtain r where "punct_segment m result x = Inr r"
    using punct_segment_total by blast
  then show ?case using Cons.IH [of r] by simp
qed

lemma punct_loop_snoc:
  "punct_loop m [] segments = Inr result \<Longrightarrow>
   punct_loop m [] (segments @ [segment]) = punct_segment m result segment"
  by (simp add: punct_loop_append split: sum.split)

lemma strip_short_not_kept:
  "int (length (strip cs)) < m \<Longrightarrow> \<not> m \<le> int (length (strip (strip cs)))"
  by (simp add: strip_strip)

subsection \<open>Candidate sentences\<close>


lemma sentence_end_punct:
  "sentence_end s = Some (run, rest) \<Longrightarrow> run \<noteq> [] \<and> (\<forall>c\<in>set run. is_punct c)"
  by (auto simp: sentence_end_def split: if_splits dest: set_takeWhileD)

lemma punct_not_space: "is_punct c \<Longrightarrow> \<not> isspace c"
  by (auto simp: is_punct_def isspace_def)

lemma candidates_re_split_nonempty: "c \<in> set (candidates (re_split cur s)) \<Longrightarrow> c \<noteq> []"
proof (induction cur s rule: re_split.induct)
  case (1 cur)
  then show ?case by simp
next
  case (2 cur x xs)
  show ?case
  proof (cases "sentence_end (x # xs)")
    case None
    then show ?thesis using 2 by simp
  next
    case (Some a)
    obtain run rest where a: "a = (run, rest)" by (cases a)
    have r: "run \<noteq> []" "\<forall>c\<in>set run. is_punct c"
      using sentence_end_punct Some a by blast+
    then obtain y where "y \<in> set run" "\<not> isspace y"
      using punct_not_space by (cases run) auto
    then have "strip (cur @ run) \<noteq> []" by (auto simp: strip_Nil_iff)
    then show ?thesis using 2 Some a by auto
  qed
qed

lemma candidates_re_split_trimmed:
  assumes "c \<in> set (candidates (re_split cur s))"
  shows "trimmed c"
proof -
  have "\<exists>u. c = strip u" if "c \<in> set (candidates parts)" for parts
    using that by (induction parts rule: candidates.induct) auto
  then obtain u where "c = strip u" using assms by blast
  moreover have "c \<noteq> []" using assms by (rule candidates_re_split_nonempty)
  ultimately show ?thesis using trimmed_strip by simp
qed

subsection \<open>An emitted sentence stays\<close>













subsection \<open>Characters of the output\<close>



























section \<open>Evaluation\<close>

text \<open>The defining equations that the simplifier unfolds to run the parser on a literal.\<close>

lemmas run_defs =
  str_def strip_def isspace_def is_punct_def newline_def space_def hash_def
  sentence_end_def header_match_def save_current_def priv_split_by_headers_def
  py_last_def add_remaining_def punct_segment_def priv_split_by_punctuation_def
  pre_split_def unfiltered_def parse_def

section \<open>The claims\<close>

subsection \<open>C1: the scenario with a header\<close>

text \<open>
  C1, as the specification states it: for the input
  \<open>"# Intro\nHello world. This is a test sentence that is long enough."\<close> with
  \<open>min_segment_length = 10\<close> and both splitting options on, \<open>parse\<close> returns three
  segments, the header segment \<open>Intro\<close> first. The code does not: the header segment
  has 5 characters and the final filter removes it.
\<close>

theorem C1_three_segments_counterexample:
  "parse \<lparr>split_by_headers = True, split_by_punctuation = True, min_segment_length = 10\<rparr>
     (str ''# Intro\<newline>Hello world. This is a test sentence that is long enough.'') \<noteq>
   Inr [\<lparr>text = str ''Intro'', header = Some (str ''Intro''), is_header = True\<rparr>,
        \<lparr>text = str ''Hello world.'', header = Some (str ''Intro''), is_header = False\<rparr>,
        \<lparr>text = str ''This is a test sentence that is long enough.'',
           header = Some (str ''Intro''), is_header = False\<rparr>]"
  by (simp add: run_defs)

text \<open>
  C1, amended: for that input and those options, the two splitting stages produce
  exactly the three segments of the scenario, in that order, and the final
  minimum-length filter then removes the header segment \<open>Intro\<close> (length 5, below 10):
  \<open>parse\<close> returns exactly the two content segments \<open>Hello world.\<close> and
  \<open>This is a test sentence that is long enough.\<close>, each with header \<open>Intro\<close> and
  \<open>is_header\<close> false.
\<close>

theorem C1_intro_scenario:
  "unfiltered \<lparr>split_by_headers = True, split_by_punctuation = True, min_segment_length = 10\<rparr>
     (str ''# Intro\<newline>Hello world. This is a test sentence that is long enough.'') =
   Inr [\<lparr>text = str ''Intro'', header = Some (str ''Intro''), is_header = True\<rparr>,
        \<lparr>text = str ''Hello world.'', header = Some (str ''Intro''), is_header = False\<rparr>,
        \<lparr>text = str ''This is a test sentence that is long enough.'',
           header = Some (str ''Intro''), is_header = False\<rparr>] \<and>
   parse \<lparr>split_by_headers = True, split_by_punctuation = True, min_segment_length = 10\<rparr>
     (str ''# Intro\<newline>Hello world. This is a test sentence that is long enough.'') =
   Inr [\<lparr>text = str ''Hello world.'', header = Some (str ''Intro''), is_header = False\<rparr>,
        \<lparr>text = str ''This is a test sentence that is long enough.'',
           header = Some (str ''Intro''), is_header = False\<rparr>]"
  by (simp add: run_defs)

subsection \<open>C2: a short remainder with nothing to merge into\<close>

text \<open>
  C2, as the specification states it: a short remainder with no earlier content
  segment to merge into is in the sequence that \<open>parse\<close> returns. For the input
  \<open>"Hi"\<close> with the default options the remainder is \<open>Hi\<close>, nothing was emitted
  before it, the punctuation stage emits it as a segment of its own, and \<open>parse\<close>
  returns the empty list.
\<close>

theorem C2_remainder_dropped_counterexample:
  "priv_split_by_headers (str ''Hi'') = [\<lparr>text = str ''Hi'', header = None, is_header = False\<rparr>] \<and>
   sentence_loop 50 None 0 (re_split [] (str ''Hi'')) [] [] = ([], str ''Hi'') \<and>
   strip (str ''Hi'') = str ''Hi'' \<and> int (length (str ''Hi'')) < 50 \<and>
   priv_split_by_punctuation 50 [\<lparr>text = str ''Hi'', header = None, is_header = False\<rparr>] =
     Inr [\<lparr>text = str ''Hi'', header = None, is_header = False\<rparr>] \<and>
   parse \<lparr>split_by_headers = True, split_by_punctuation = True, min_segment_length = 50\<rparr>
     (str ''Hi'') = Inr []"
  by (simp add: run_defs)

text \<open>
  C2, amended: when the punctuation stage has processed \<open>segments\<close> and the next
  segment, not a header, leaves a non-empty remainder shorter than the minimum
  length while the list emitted so far (the sentences of this segment included) is
  empty or ends with a header segment, the stage appends the remainder as a segment
  of its own under the segment's header. The final filter of \<open>parse\<close> removes every
  segment shorter than the minimum length, so no call of \<open>parse\<close> with that minimum
  length returns a segment that is just this remainder.
\<close>

theorem C2_short_remainder_emitted_then_filtered:
  assumes "priv_split_by_punctuation m segments = Inr result"
    and "\<not> is_header segment"
    and "sentence_loop m (header segment) 0 (re_split [] (text segment)) [] result = (result', cs)"
    and "strip cs \<noteq> []" and "int (length (strip cs)) < m"
    and "result' = [] \<or> is_header (last result')"
  shows "priv_split_by_punctuation m (segments @ [segment]) =
           Inr (result' @ [\<lparr>text = strip cs, header = header segment, is_header = False\<rparr>]) \<and>
         (\<forall>self txt. min_segment_length self = m \<longrightarrow>
            (\<exists>out. parse self txt = Inr out \<and>
               \<lparr>text = strip cs, header = header segment, is_header = False\<rparr> \<notin> set out))"
proof -
  have "priv_split_by_punctuation m (segments @ [segment]) = punct_segment m result segment"
    using assms(1) by (simp add: priv_split_by_punctuation_def punct_loop_snoc)
  also have "\<dots> = add_remaining m (header segment) result' cs"
    using assms(2,3) by (simp add: punct_segment_def)
  also have "\<dots> = Inr (result' @ [\<lparr>text = strip cs, header = header segment, is_header = False\<rparr>])"
    using assms(4-6) by (auto simp: add_remaining_eq)
  finally have a: "priv_split_by_punctuation m (segments @ [segment]) =
      Inr (result' @ [\<lparr>text = strip cs, header = header segment, is_header = False\<rparr>])" .
  have b: "\<exists>out. parse self input = Inr out \<and>
      \<lparr>text = strip cs, header = header segment, is_header = False\<rparr> \<notin> set out"
    if "min_segment_length self = m" for self input
  proof -
    obtain u where "unfiltered self input = Inr u"
      using unfiltered_total by blast
    then show ?thesis
      using that strip_short_not_kept [OF assms(5)] by (auto simp: parse_def)
  qed
  from a b show ?thesis by blast
qed

text \<open>An instance: the input \<open>"Hi"\<close> with minimum length 50.\<close>

theorem C2_short_remainder_emitted_then_filtered_witness:
  "priv_split_by_punctuation 50 [] = Inr [] \<and>
   sentence_loop 50 None 0 (re_split [] (str ''Hi'')) [] [] = ([], str ''Hi'') \<and>
   priv_split_by_punctuation 50 ([] @ [\<lparr>text = str ''Hi'', header = None, is_header = False\<rparr>]) =
     Inr ([] @ [\<lparr>text = strip (str ''Hi''), header = None, is_header = False\<rparr>]) \<and>
   (\<exists>out. parse \<lparr>split_by_headers = True, split_by_punctuation = True, min_segment_length = 50\<rparr>
            (str ''Hi'') = Inr out \<and>
          \<lparr>text = strip (str ''Hi''), header = None, is_header = False\<rparr> \<notin> set out)"
proof -
  let ?s = "\<lparr>text = str ''Hi'', header = None, is_header = False\<rparr>"
  let ?self = "\<lparr>split_by_headers = True, split_by_punctuation = True, min_segment_length = 50\<rparr>"
  have r: "priv_split_by_punctuation 50 [] = Inr []" by (simp add: run_defs)
  have h: "\<not> is_header ?s" by simp
  have l: "sentence_loop 50 (header ?s) 0 (re_split [] (text ?s)) [] [] = ([], str ''Hi'')"
    by (simp add: run_defs)
  have n: "strip (str ''Hi'') \<noteq> []" by (simp add: run_defs)
  have s: "int (length (strip (str ''Hi''))) < 50" by (simp add: run_defs)
  have e: "[] = [] \<or> is_header (last ([] :: segment list))" by simp
  have m: "min_segment_length ?self = 50" by simp
  note t = C2_short_remainder_emitted_then_filtered [OF r h l n s e]
  have a: "priv_split_by_punctuation 50 ([] @ [?s]) =
      Inr ([] @ [\<lparr>text = strip (str ''Hi''), header = header ?s, is_header = False\<rparr>])"
    using t by (rule conjunct1)
  have "\<forall>self txt. min_segment_length self = 50 \<longrightarrow>
      (\<exists>out. parse self txt = Inr out \<and>
         \<lparr>text = strip (str ''Hi''), header = header ?s, is_header = False\<rparr> \<notin> set out)"
    using t by (rule conjunct2)
  then have b: "\<exists>out. parse ?self (str ''Hi'') = Inr out \<and>
         \<lparr>text = strip (str ''Hi''), header = header ?s, is_header = False\<rparr> \<notin> set out"
    using m by blast
  show ?thesis using r l a b by simp
qed

subsection \<open>C3: input without header lines\<close>

text \<open>
  C3: for every text with no header line (no line that, trimmed, matches the header
  pattern), parsing with \<open>split_by_headers = true\<close> returns no segment with
  \<open>is_header = true\<close>, and every returned segment has no header value.
\<close>

theorem C3_no_header_lines:
  assumes "list_all (\<lambda>line. header_match (strip line) = None) (split_on newline [] txt)"
    and "split_by_headers self"
  shows "\<exists>segments. parse self txt = Inr segments \<and>
           list_all (\<lambda>s. \<not> is_header s \<and> header s = None) segments"
proof -
  have p: "plain (pre_split self txt)"
    using assms by (simp add: pre_split_def priv_split_by_headers_def header_loop_plain plain_simps)
  obtain out where out: "unfiltered self txt = Inr out"
    using unfiltered_total by blast
  have "plain out"
  proof (cases "split_by_punctuation self")
    case True
    then have "punct_loop (min_segment_length self) [] (pre_split self txt) = Inr out"
      using out by (simp add: unfiltered_def priv_split_by_punctuation_def)
    then show ?thesis
      using p punct_loop_plain [of "[]" "pre_split self txt" "min_segment_length self" out]
      by (simp add: plain_simps)
  next
    case False
    then show ?thesis using out p by (simp add: unfiltered_def)
  qed
  then show ?thesis using out by (auto simp: parse_def plain_def list_all_iff)
qed

text \<open>An instance: a line that starts with \<open>#\<close> but has no whitespace after it is no header.\<close>

theorem C3_no_header_lines_witness:
  "list_all (\<lambda>line. header_match (strip line) = None)
     (split_on newline [] (str ''#No header.\<newline>Short tail'')) \<and>
   split_by_headers \<lparr>split_by_headers = True, split_by_punctuation = True, min_segment_length = 5\<rparr> \<and>
   parse \<lparr>split_by_headers = True, split_by_punctuation = True, min_segment_length = 5\<rparr>
     (str ''#No header.\<newline>Short tail'') =
   Inr [\<lparr>text = str ''#No header.'', header = None, is_header = False\<rparr>,
        \<lparr>text = str ''Short tail'', header = None, is_header = False\<rparr>] \<and>
   (\<exists>segments.
      parse \<lparr>split_by_headers = True, split_by_punctuation = True, min_segment_length = 5\<rparr>
        (str ''#No header.\<newline>Short tail'') = Inr segments \<and>
      list_all (\<lambda>s. \<not> is_header s \<and> header s = None) segments)"
proof -
  have h: "list_all (\<lambda>line. header_match (strip line) = None)
     (split_on newline [] (str ''#No header.\<newline>Short tail''))"
    by (simp add: run_defs)
  have s: "split_by_headers \<lparr>split_by_headers = True, split_by_punctuation = True, min_segment_length = 5\<rparr>"
    by simp
  have e: "parse \<lparr>split_by_headers = True, split_by_punctuation = True, min_segment_length = 5\<rparr>
     (str ''#No header.\<newline>Short tail'') =
   Inr [\<lparr>text = str ''#No header.'', header = None, is_header = False\<rparr>,
        \<lparr>text = str ''Short tail'', header = None, is_header = False\<rparr>]"
    by (simp add: run_defs)
  show ?thesis using h s e C3_no_header_lines [OF h s] by blast
qed

subsection \<open>C4: the characters of the output\<close>



subsection \<open>C5: the minimum length at its boundary\<close>



subsection \<open>C6: the scenario without header splitting\<close>

text \<open>
  C6: for the input \<open>"A. B. C."\<close> with \<open>split_by_headers = false\<close> and
  \<open>min_segment_length = 1\<close>, the whole document first becomes one trimmed content
  segment with no header, and \<open>parse\<close> returns exactly the three content segments
  \<open>A.\<close>, \<open>B.\<close>, \<open>C.\<close> in that order, each with no header.
\<close>

theorem C6_abc_scenario:
  "pre_split \<lparr>split_by_headers = False, split_by_punctuation = True, min_segment_length = 1\<rparr>
     (str ''A. B. C.'') =
   [\<lparr>text = str ''A. B. C.'', header = None, is_header = False\<rparr>] \<and>
   parse \<lparr>split_by_headers = False, split_by_punctuation = True, min_segment_length = 1\<rparr>
     (str ''A. B. C.'') =
   Inr [\<lparr>text = str ''A.'', header = None, is_header = False\<rparr>,
        \<lparr>text = str ''B.'', header = None, is_header = False\<rparr>,
        \<lparr>text = str ''C.'', header = None, is_header = False\<rparr>]"
  by (simp add: run_defs)

subsection \<open>C7: no error\<close>

text \<open>
  C7: for every input string and every combination of the three options, \<open>parse\<close>
  returns a list of segments and raises no error. The only operation of the parser
  that can raise is \<open>result[-1]\<close>, and both of its uses are behind the test that
  \<open>result\<close> is not empty.
\<close>

theorem C7_parse_never_fails: "\<exists>segments. parse self txt = Inr segments"
proof -
  obtain out where "unfiltered self txt = Inr out"
    using unfiltered_total by blast
  then show ?thesis by (simp add: parse_def)
qed

subsection \<open>C8: no empty text\<close>

text \<open>
  C8: for every input and every combination of options (a minimum length of zero or
  below included), every segment that \<open>parse\<close> returns has a text that is not empty
  after trimming. The same holds for the segments before the final filter, so the
  empty ones are dropped when the segments are built.
\<close>

theorem C8_text_never_empty:
  "(\<exists>segments. parse self txt = Inr segments \<and> list_all (\<lambda>s. strip (text s) \<noteq> []) segments) \<and>
   (strip txt \<noteq> [] \<longrightarrow>
      (\<exists>segments. unfiltered self txt = Inr segments \<and>
         list_all (\<lambda>s. strip (text s) \<noteq> []) segments))"
proof -
  obtain out where out: "unfiltered self txt = Inr out"
    using unfiltered_total by blast
  have u: "list_all (\<lambda>s. strip (text s) \<noteq> []) out" if "strip txt \<noteq> []"
  proof -
    have "all_trimmed out" using that out by (rule unfiltered_trimmed)
    then show ?thesis
      by (auto simp: all_trimmed_def list_all_iff strip_trimmed trimmed_def)
  qed
  have "\<exists>segments. parse self txt = Inr segments \<and> list_all (\<lambda>s. strip (text s) \<noteq> []) segments"
  proof (cases "strip txt = []")
    case True
    then show ?thesis by (simp add: parse_def)
  next
    case False
    then show ?thesis using out u by (auto simp: parse_def list_all_iff)
  qed
  then show ?thesis using out u by simp
qed

text \<open>An instance with minimum length 0, a blank line and trailing whitespace.\<close>

theorem C8_text_never_empty_witness:
  "strip (str ''# T\<newline> \<newline>ab. '') \<noteq> [] \<and>
   parse \<lparr>split_by_headers = True, split_by_punctuation = True, min_segment_length = 0\<rparr>
     (str ''# T\<newline> \<newline>ab. '') =
   Inr [\<lparr>text = str ''T'', header = Some (str ''T''), is_header = True\<rparr>,
        \<lparr>text = str ''ab.'', header = Some (str ''T''), is_header = False\<rparr>] \<and>
   (\<exists>segments.
      parse \<lparr>split_by_headers = True, split_by_punctuation = True, min_segment_length = 0\<rparr>
        (str ''# T\<newline> \<newline>ab. '') = Inr segments \<and>
      list_all (\<lambda>s. strip (text s) \<noteq> []) segments) \<and>
   (\<exists>segments.
      unfiltered \<lparr>split_by_headers = True, split_by_punctuation = True, min_segment_length = 0\<rparr>
        (str ''# T\<newline> \<newline>ab. '') = Inr segments \<and>
      list_all (\<lambda>s. strip (text s) \<noteq> []) segments)"
proof -
  let ?self = "\<lparr>split_by_headers = True, split_by_punctuation = True, min_segment_length = 0\<rparr>"
  let ?txt = "str ''# T\<newline> \<newline>ab. ''"
  have n: "strip ?txt \<noteq> []" by (simp add: run_defs)
  have e: "parse ?self ?txt =
   Inr [\<lparr>text = str ''T'', header = Some (str ''T''), is_header = True\<rparr>,
        \<lparr>text = str ''ab.'', header = Some (str ''T''), is_header = False\<rparr>]"
    by (simp add: run_defs)
  show ?thesis using n e C8_text_never_empty [of ?self ?txt] by blast
qed

subsection \<open>C9: the combiner on an empty list\<close>

text \<open>
  C9: \<open>combine_audio_files\<close> fails when \<open>segment_files\<close> is empty. It raises
  \<open>ValueError\<close> at its first statement, whatever the rest of the function would do and
  whatever the state of the file system: no later step runs, so no output file is
  produced.
\<close>

theorem C9_combine_empty_fails:
  "combine_audio_files run_ffmpeg [] output_path normalize_audio fs =
     Inl (ValueError ''No audio files to combine'')"
  by (simp add: combine_audio_files_def)

subsection \<open>C10: the segment a short remainder is merged into\<close>

text \<open>
  C10: the segment that a short remainder is appended to is the last segment emitted
  so far over all input segments. When the punctuation stage has processed
  \<open>segments\<close> and the next segment, not a header, leaves a non-empty remainder
  shorter than the minimum length while the list emitted so far (the sentences of
  this segment included) ends with a content segment, the stage changes the text of
  that last segment only: a space and the remainder are appended to it. The list
  keeps its length, every \<open>header\<close> and \<open>is_header\<close> field keeps its value, and no
  segment is added under the header of the remainder.
\<close>

theorem C10_remainder_joins_last_emitted:
  assumes "priv_split_by_punctuation m segments = Inr result"
    and "\<not> is_header segment"
    and "sentence_loop m (header segment) 0 (re_split [] (text segment)) [] result = (result', cs)"
    and "strip cs \<noteq> []" and "int (length (strip cs)) < m"
    and "result' \<noteq> []" and "\<not> is_header (last result')"
  shows "priv_split_by_punctuation m (segments @ [segment]) =
           Inr (butlast result' @ [(last result')\<lparr>text := text (last result') @ [space] @ strip cs\<rparr>]) \<and>
         map header (butlast result' @ [(last result')\<lparr>text := text (last result') @ [space] @ strip cs\<rparr>]) =
           map header result' \<and>
         map is_header (butlast result' @ [(last result')\<lparr>text := text (last result') @ [space] @ strip cs\<rparr>]) =
           map is_header result'"
proof -
  have "priv_split_by_punctuation m (segments @ [segment]) = punct_segment m result segment"
    using assms(1) by (simp add: priv_split_by_punctuation_def punct_loop_snoc)
  also have "\<dots> = add_remaining m (header segment) result' cs"
    using assms(2,3) by (simp add: punct_segment_def)
  also have "\<dots> = Inr (butlast result' @ [(last result')\<lparr>text := text (last result') @ [space] @ strip cs\<rparr>])"
    using assms(4-7) by (simp add: add_remaining_eq)
  finally have a: "priv_split_by_punctuation m (segments @ [segment]) =
      Inr (butlast result' @ [(last result')\<lparr>text := text (last result') @ [space] @ strip cs\<rparr>])" .
  have "map f (butlast result' @ [(last result')\<lparr>text := t\<rparr>]) = map f result'"
    if "f ((last result')\<lparr>text := t\<rparr>) = f (last result')" for f :: "segment \<Rightarrow> 'b" and t
  proof -
    have "map f (butlast result' @ [(last result')\<lparr>text := t\<rparr>]) = map f (butlast result' @ [last result'])"
      using that by simp
    then show ?thesis using assms(6) by simp
  qed
  from this [of header] this [of is_header] a show ?thesis by simp
qed

text \<open>
  An instance across two input segments: the remainder \<open>ab\<close> found under the header
  \<open>B\<close> is appended to the sentence found under the header \<open>A\<close>, and no segment of
  the result has the header \<open>B\<close>.
\<close>

theorem C10_remainder_joins_last_emitted_witness:
  "priv_split_by_punctuation 10
     [\<lparr>text = str ''Long sentence one.'', header = Some (str ''A''), is_header = False\<rparr>] =
   Inr [\<lparr>text = str ''Long sentence one.'', header = Some (str ''A''), is_header = False\<rparr>] \<and>
   sentence_loop 10 (Some (str ''B'')) 0 (re_split [] (str ''ab'')) []
     [\<lparr>text = str ''Long sentence one.'', header = Some (str ''A''), is_header = False\<rparr>] =
   ([\<lparr>text = str ''Long sentence one.'', header = Some (str ''A''), is_header = False\<rparr>], str ''ab'') \<and>
   priv_split_by_punctuation 10
     ([\<lparr>text = str ''Long sentence one.'', header = Some (str ''A''), is_header = False\<rparr>] @
      [\<lparr>text = str ''ab'', header = Some (str ''B''), is_header = False\<rparr>]) =
   Inr [\<lparr>text = str ''Long sentence one. ab'', header = Some (str ''A''), is_header = False\<rparr>]"
proof -
  let ?a = "\<lparr>text = str ''Long sentence one.'', header = Some (str ''A''), is_header = False\<rparr>"
  let ?b = "\<lparr>text = str ''ab'', header = Some (str ''B''), is_header = False\<rparr>"
  have r: "priv_split_by_punctuation 10 [?a] = Inr [?a]" by (simp add: run_defs)
  have h: "\<not> is_header ?b" by simp
  have l: "sentence_loop 10 (header ?b) 0 (re_split [] (text ?b)) [] [?a] = ([?a], str ''ab'')"
    by (simp add: run_defs)
  have n: "strip (str ''ab'') \<noteq> []" by (simp add: run_defs)
  have s: "int (length (strip (str ''ab''))) < 10" by (simp add: run_defs)
  have e: "[?a] \<noteq> []" by simp
  have k: "\<not> is_header (last [?a])" by simp
  have "priv_split_by_punctuation 10 ([?a] @ [?b]) =
      Inr (butlast [?a] @ [(last [?a])\<lparr>text := text (last [?a]) @ [space] @ strip (str ''ab'')\<rparr>])"
    using C10_remainder_joins_last_emitted [OF r h l n s e k] by (rule conjunct1)
  moreover have "butlast [?a] @ [(last [?a])\<lparr>text := text (last [?a]) @ [space] @ strip (str ''ab'')\<rparr>] =
      [\<lparr>text = str ''Long sentence one. ab'', header = Some (str ''A''), is_header = False\<rparr>]"
    by (simp add: run_defs)
  ultimately have "priv_split_by_punctuation 10 ([?a] @ [?b]) =
      Inr [\<lparr>text = str ''Long sentence one. ab'', header = Some (str ''A''), is_header = False\<rparr>]"
    by (simp only:)
  then show ?thesis using r l by simp
qed

end
